theory Spec2Isabelle
  imports Main
begin

section \<open>The scatter-columns functor\<close>

text \<open>
  This theory embeds \<^verbatim>\<open>CountAndCopy\<close> of
  \<^verbatim>\<open>tensorflow/core/user_ops/scatter_columns_functor.h\<close>, the CPU kernel that
  scatters the columns of a dense row-major matrix to given destination columns and fills
  the remaining destination columns with one pad element.

  Conventions of the embedding:
  \<^item> values of the index type \<^verbatim>\<open>IndT\<close> and of \<^verbatim>\<open>int64\<close> are integers
    (\<open>int\<close>); the loop over the indices counts with \<^verbatim>\<open>IndT\<close> and stops at the first
    offending position or at the number of indices;
  \<^item> the counters \<^verbatim>\<open>c\<close>, \<^verbatim>\<open>pad_cols\<close>, \<^verbatim>\<open>row\<close> and \<^verbatim>\<open>col\<close> have the C type
    \<^verbatim>\<open>int\<close>, taken with 32 bits. They start at 0 and never go below it, so they are
    naturals here, and every addition on them is checked: a sum above \<open>INT_MAX\<close> is a
    signed overflow, which is undefined behaviour in C and the outcome \<open>Fault\<close> here;
  \<^item> a matrix is a \<^verbatim>\<open>TensorMap\<close>: its two dimensions and its flat row-major buffer.
    A pointer into a buffer is the buffer's suffix from that address;
  \<^item> an access outside a buffer or a vector, and the exception of a vector constructor,
    is the outcome \<open>Fault\<close> too; a loop that does not come back is the value \<open>None\<close>;
  \<^item> \<^verbatim>\<open>port::prefetch\<close> has no effect on any value, only the sum \<^verbatim>\<open>col + 1\<close>
    and the vector read that guard the hints are kept;
  \<^item> the call records every \<^verbatim>\<open>memcpy\<close> into the output in a trace (row, first
    column, number of elements), which the code does not have and which no definition
    reads: it only serves to count the writes.
\<close>

subsection \<open>Status, outcomes, buffers\<close>

text \<open>The arguments of \<^verbatim>\<open>errors::InvalidArgument(...)\<close>, in the order they are concatenated.\<close>

datatype msg_arg = Text string | Num int

datatype status = OK | InvalidArgument "msg_arg list"

datatype 'a exec = Ret 'a | Fault

record 'a matrix =
  dim0 :: nat
  dim1 :: nat
  mdata :: "'a list"

record 'a out_state =
  out :: "'a matrix"
  trace :: "(nat \<times> nat \<times> nat) list"

text \<open>\<^verbatim>\<open>v[i]\<close> on a \<^verbatim>\<open>std::vector\<close>, read and write.\<close>

definition vec_get :: "'b list \<Rightarrow> nat \<Rightarrow> 'b exec" where
  "vec_get v i = (if i < length v then Ret (v ! i) else Fault)"

definition vec_set :: "'b list \<Rightarrow> nat \<Rightarrow> 'b \<Rightarrow> 'b list exec" where
  "vec_set v i x = (if i < length v then Ret (v[i := x]) else Fault)"

text \<open>The largest value of the C type \<^verbatim>\<open>int\<close>, and the addition of two counters of that type.\<close>

definition INT_MAX :: nat where
  "INT_MAX = 2147483647"

definition int_add :: "nat \<Rightarrow> nat \<Rightarrow> nat exec" where
  "int_add a b = (if a + b \<le> INT_MAX then Ret (a + b) else Fault)"

text \<open>\<^verbatim>\<open>&m(r, c)\<close> of a row-major \<^verbatim>\<open>TensorMap\<close>: the buffer from offset \<open>r * dim1 + c\<close> on.\<close>

definition addr :: "'a matrix \<Rightarrow> nat \<Rightarrow> nat \<Rightarrow> 'a list" where
  "addr m r c = drop (r * dim1 m + c) (mdata m)"

text \<open>
  \<^verbatim>\<open>memcpy(&output(row, col), src, n * sizeof(T))\<close>: \<open>n\<close> elements from the source
  pointer replace the \<open>n\<close> elements of the output buffer from \<open>&output(row, col)\<close> on.
\<close>

definition memcpy_out :: "'a out_state \<Rightarrow> nat \<Rightarrow> nat \<Rightarrow> 'a list \<Rightarrow> nat \<Rightarrow> 'a out_state exec" where
  "memcpy_out st row col src n =
     (let m = out st; off = row * dim1 m + col in
      if off + n \<le> length (mdata m) \<and> n \<le> length src then
        Ret (st\<lparr>out := m\<lparr>mdata := take off (mdata m) @ take n src @ drop (off + n) (mdata m)\<rparr>,
                trace := trace st @ [(row, col, n)]\<rparr>)
      else Fault)"

subsection \<open>Validation and the inverse map\<close>

text \<open>
  Modelled from the spec: \<^verbatim>\<open>FastBoundsCheck\<close> of
  \<^verbatim>\<open>tensorflow/core/kernels/bounds_check.h\<close>, which is not among the sources here.
  The spec gives the accepted range as the half-open interval from 0 to the limit.
\<close>

definition FastBoundsCheck :: "int \<Rightarrow> int \<Rightarrow> bool" where
  "FastBoundsCheck index limit \<longleftrightarrow> 0 \<le> index \<and> index < limit"

definition duplicate_status :: "nat \<Rightarrow> nat \<Rightarrow> status" where
  "duplicate_status indices_size unique_size =
     InvalidArgument [Text ''Indices cannot contain duplicates.'',
                      Text '' Total no. of indices: '', Num (int indices_size),
                      Text '' != no. of unique indices: '', Num (int unique_size), Text ''.'']"

definition range_status :: "nat \<Rightarrow> int \<Rightarrow> int \<Rightarrow> status" where
  "range_status i v out_num_cols =
     InvalidArgument [Text ''Indices('', Num (int i), Text ''): '', Num v,
                      Text '' is not in range (0, '', Num out_num_cols, Text ''].'']"

text \<open>The loop of lines 49 to 58, from position \<open>i\<close> on.\<close>

function arrange_out_indices :: "int list \<Rightarrow> int \<Rightarrow> nat \<Rightarrow> int list \<Rightarrow> (status + int list) exec" where
  "arrange_out_indices indices out_num_cols i out_indices =
     (if i < length indices then
        (if \<not> FastBoundsCheck (indices ! i) out_num_cols then
           Ret (Inl (range_status i (indices ! i) out_num_cols))
         else
           (case vec_set out_indices (nat (indices ! i)) (int i) of
              Fault \<Rightarrow> Fault
            | Ret out_indices' \<Rightarrow> arrange_out_indices indices out_num_cols (Suc i) out_indices'))
      else Ret (Inr out_indices))"
  by pat_completeness auto
termination
  by (relation "measure (\<lambda>(indices, w, i, oi). length indices - i)") auto

declare arrange_out_indices.simps [simp del]

subsection \<open>Grouping consecutive padding columns\<close>

text \<open>
  The first inner loop (lines 75 to 82): from column \<open>c\<close> with \<open>pad_cols\<close> columns
  counted so far, the value of \<open>pad_cols\<close> when the loop is left. The sum
  \<^verbatim>\<open>c + pad_cols\<close> is computed for the loop condition and again for the \<^verbatim>\<open>break\<close>.
\<close>

function count_pad :: "int list \<Rightarrow> nat \<Rightarrow> nat \<Rightarrow> nat \<Rightarrow> nat exec" where
  "count_pad out_indices W c pad_cols =
     (case int_add c pad_cols of
        Fault \<Rightarrow> Fault
      | Ret k \<Rightarrow>
          (case vec_get out_indices k of
             Fault \<Rightarrow> Fault
           | Ret v \<Rightarrow>
               if v < 0 then
                 (case int_add pad_cols 1 of
                    Fault \<Rightarrow> Fault
                  | Ret pad_cols' \<Rightarrow>
                      (case int_add c pad_cols' of
                         Fault \<Rightarrow> Fault
                       | Ret k' \<Rightarrow>
                           if k' \<ge> W then Ret pad_cols'
                           else count_pad out_indices W c pad_cols'))
               else Ret pad_cols))"
  by pat_completeness auto
termination
  by (relation "measure (\<lambda>(oi, W, c, p). W - (c + p))")
    (auto simp: int_add_def split: if_splits)

declare count_pad.simps [simp del]

text \<open>The second inner loop (lines 89 to 92): \<^verbatim>\<open>cons_pad_cols[c++] = pad_cols--\<close>.\<close>

fun fill_pad :: "nat list \<Rightarrow> nat \<Rightarrow> nat \<Rightarrow> (nat list \<times> nat) exec" where
  "fill_pad cons_pad_cols c 0 = Ret (cons_pad_cols, c)"
| "fill_pad cons_pad_cols c (Suc p) =
     (case vec_set cons_pad_cols c (Suc p) of
        Fault \<Rightarrow> Fault
      | Ret cons_pad_cols' \<Rightarrow>
          (case int_add c 1 of
             Fault \<Rightarrow> Fault
           | Ret c' \<Rightarrow> fill_pad cons_pad_cols' c' p))"

text \<open>
  The outer loop (lines 72 to 93), from column \<open>c\<close> on; its own \<^verbatim>\<open>c++\<close> comes after
  the body has moved \<open>c\<close> past the run.
\<close>

function group_pad :: "int list \<Rightarrow> nat \<Rightarrow> nat list \<Rightarrow> nat \<Rightarrow> nat \<Rightarrow> (nat list \<times> nat) exec" where
  "group_pad out_indices W cons_pad_cols max_cons_pad_cols c =
     (if c < W then
        (case count_pad out_indices W c 0 of
           Fault \<Rightarrow> Fault
         | Ret pad_cols \<Rightarrow>
             (case fill_pad cons_pad_cols c pad_cols of
                Fault \<Rightarrow> Fault
              | Ret (cons_pad_cols', c') \<Rightarrow>
                  (case int_add c' 1 of
                     Fault \<Rightarrow> Fault
                   | Ret c'' \<Rightarrow>
                       group_pad out_indices W cons_pad_cols'
                         (if pad_cols > max_cons_pad_cols then pad_cols else max_cons_pad_cols)
                         c'')))
      else Ret (cons_pad_cols, max_cons_pad_cols))"
  by pat_completeness auto
termination
proof (relation "measure (\<lambda>(oi, W, cons, mx, c). W - c)", goal_cases)
  case 1
  show ?case by simp
next
  case (2 out_indices W cons_pad_cols max_cons_pad_cols c pad_cols x y c' c'')
  have col: "fill_pad cons k p = Ret (cons', k') \<Longrightarrow> k \<le> k'" for cons cons' k k' p
  proof (induction p arbitrary: cons k)
    case 0
    then show ?case by simp
  next
    case (Suc p)
    from Suc.prems have "fill_pad (cons[k := Suc p]) (Suc k) p = Ret (cons', k')"
      by (simp add: vec_set_def int_add_def split: if_splits)
    from Suc.IH [OF this] show ?case by simp
  qed
  from 2 have "c \<le> c'"
    using col by metis
  moreover from 2 have "c'' = c' + 1"
    by (simp add: int_add_def split: if_splits)
  ultimately show ?case using 2 by simp
qed

declare group_pad.simps [simp del]

subsection \<open>The row copy\<close>

text \<open>
  Lines 104 to 115 issue two prefetch hints; what they can do to the run is the sum
  \<^verbatim>\<open>col + 1\<close> and the read of \<^verbatim>\<open>out_indices[col+1]\<close>.
\<close>

definition prefetch_next :: "int list \<Rightarrow> nat \<Rightarrow> nat \<Rightarrow> unit exec" where
  "prefetch_next out_indices W col =
     (case int_add col 1 of
        Fault \<Rightarrow> Fault
      | Ret k \<Rightarrow>
          if k < W then
            (case vec_get out_indices k of Fault \<Rightarrow> Fault | Ret v \<Rightarrow> Ret ())
          else Ret ())"

text \<open>The inner loop over the columns of one row (lines 101 to 129), from column \<open>col\<close> on.\<close>

partial_function (option) copy_row ::
  "'a matrix \<Rightarrow> int list \<Rightarrow> nat list \<Rightarrow> 'a list \<Rightarrow> nat \<Rightarrow> nat \<Rightarrow> nat \<Rightarrow> 'a out_state
     \<Rightarrow> 'a out_state exec option" where
  "copy_row params out_indices cons_pad_cols pad_elem_vec W row col st =
     (if col < W then
        (case prefetch_next out_indices W col of
           Fault \<Rightarrow> Some Fault
         | Ret u \<Rightarrow>
             (case vec_get out_indices col of
                Fault \<Rightarrow> Some Fault
              | Ret j \<Rightarrow>
                  if j \<ge> 0 then
                    (case memcpy_out st row col (addr params row (nat j)) 1 of
                       Fault \<Rightarrow> Some Fault
                     | Ret st' \<Rightarrow>
                         (case int_add col 1 of
                            Fault \<Rightarrow> Some Fault
                          | Ret col' \<Rightarrow>
                              copy_row params out_indices cons_pad_cols pad_elem_vec W row col' st'))
                  else
                    (case vec_get cons_pad_cols col of
                       Fault \<Rightarrow> Some Fault
                     | Ret n \<Rightarrow>
                         (case memcpy_out st row col pad_elem_vec n of
                            Fault \<Rightarrow> Some Fault
                          | Ret st' \<Rightarrow>
                              (case int_add col n of
                                 Fault \<Rightarrow> Some Fault
                               | Ret col' \<Rightarrow>
                                   copy_row params out_indices cons_pad_cols pad_elem_vec W row
                                     col' st')))))
      else Some (Ret st))"

declare copy_row.simps [code]

text \<open>
  The outer loop over the rows (lines 99 to 130), from row \<open>row\<close> on: an \<^verbatim>\<open>int\<close>
  counter against the \<^verbatim>\<open>int64\<close> number of rows.
\<close>

function copy_rows ::
  "'a matrix \<Rightarrow> int list \<Rightarrow> nat list \<Rightarrow> 'a list \<Rightarrow> nat \<Rightarrow> int \<Rightarrow> nat \<Rightarrow> 'a out_state
     \<Rightarrow> 'a out_state exec option" where
  "copy_rows params out_indices cons_pad_cols pad_elem_vec W params_rows row st =
     (if int row < params_rows then
        (case copy_row params out_indices cons_pad_cols pad_elem_vec W row 0 st of
           None \<Rightarrow> None
         | Some Fault \<Rightarrow> Some Fault
         | Some (Ret st') \<Rightarrow>
             (case int_add row 1 of
                Fault \<Rightarrow> Some Fault
              | Ret row' \<Rightarrow>
                  copy_rows params out_indices cons_pad_cols pad_elem_vec W params_rows row' st'))
      else Some (Ret st))"
  by pat_completeness auto
termination
  by (relation "measure (\<lambda>(p, oi, cons, pv, W, rows, row, st). nat (rows - int row))")
    (auto simp: int_add_def split: if_splits)

declare copy_rows.simps [simp del]

subsection \<open>CountAndCopy\<close>

text \<open>
  The whole function. \<^verbatim>\<open>params_cols\<close> is a parameter that the body never reads.
  The constructor of \<^verbatim>\<open>out_indices\<close> throws when \<^verbatim>\<open>out_num_cols\<close> is negative.
\<close>

definition CountAndCopy ::
  "'a matrix \<Rightarrow> int list \<Rightarrow> int \<Rightarrow> 'a \<Rightarrow> int \<Rightarrow> int \<Rightarrow> 'a matrix
     \<Rightarrow> (status \<times> 'a out_state) exec option" where
  "CountAndCopy params indices out_num_cols pad_elem params_rows params_cols output =
     (let st0 = \<lparr>out = output, trace = []\<rparr>;
          indices_size = length indices;
          unique_ind = set indices
      in
      if card unique_ind \<noteq> indices_size then
        Some (Ret (duplicate_status indices_size (card unique_ind), st0))
      else if out_num_cols < 0 then Some Fault
      else
        let W = nat out_num_cols in
        (case arrange_out_indices indices out_num_cols 0 (replicate W (- 1)) of
           Fault \<Rightarrow> Some Fault
         | Ret (Inl err) \<Rightarrow> Some (Ret (err, st0))
         | Ret (Inr out_indices) \<Rightarrow>
             (case group_pad out_indices W (replicate W 0) 0 0 of
                Fault \<Rightarrow> Some Fault
              | Ret (cons_pad_cols, max_cons_pad_cols) \<Rightarrow>
                  let pad_elem_vec = replicate max_cons_pad_cols pad_elem in
                  (case copy_rows params out_indices cons_pad_cols pad_elem_vec W
                          params_rows 0 st0 of
                     None \<Rightarrow> None
                   | Some Fault \<Rightarrow> Some Fault
                   | Some (Ret st) \<Rightarrow> Some (Ret (OK, st))))))"

subsection \<open>Specification vocabulary\<close>

definition runs_upto :: "int list \<Rightarrow> nat \<Rightarrow> nat list \<Rightarrow> nat \<Rightarrow> nat \<Rightarrow> bool" where
  "runs_upto oi W cons mx c \<longleftrightarrow>
     (\<forall>d. d < c \<and> d < W \<and> oi ! d < 0 \<longrightarrow>
        1 \<le> cons ! d \<and> d + cons ! d \<le> W \<and> cons ! d \<le> mx \<and> (\<forall>j < cons ! d. oi ! (d + j) < 0))"

definition writes_to :: "(nat \<times> nat \<times> nat) list \<Rightarrow> nat \<Rightarrow> nat \<Rightarrow> nat" where
  "writes_to tr r c = length (filter (\<lambda>(r', c', n). r' = r \<and> c' \<le> c \<and> c < c' + n) tr)"

definition cell_of :: "'a matrix \<Rightarrow> int list \<Rightarrow> 'a \<Rightarrow> nat \<Rightarrow> nat \<Rightarrow> 'a" where
  "cell_of params oi pad r c =
     (if 0 \<le> oi ! c then mdata params ! (r * dim1 params + nat (oi ! c)) else pad)"

definition row_post ::
  "'a matrix \<Rightarrow> int list \<Rightarrow> 'a \<Rightarrow> nat \<Rightarrow> nat \<Rightarrow> nat \<Rightarrow> 'a out_state \<Rightarrow> 'a out_state \<Rightarrow> bool" where
  "row_post params oi pad W row col st st' \<longleftrightarrow>
     dim0 (out st') = dim0 (out st) \<and> dim1 (out st') = dim1 (out st)
   \<and> length (mdata (out st')) = length (mdata (out st))
   \<and> (\<forall>k < length (mdata (out st)). k < row * W + col \<or> row * W + W \<le> k
          \<longrightarrow> mdata (out st') ! k = mdata (out st) ! k)
   \<and> (\<forall>c. col \<le> c \<and> c < W \<longrightarrow> mdata (out st') ! (row * W + c) = cell_of params oi pad row c)
   \<and> (\<exists>E. trace st' = trace st @ E
          \<and> (\<forall>(r, c0, n) \<in> set E. r = row \<and> col \<le> c0 \<and> c0 + n \<le> W)
          \<and> (\<forall>c. col \<le> c \<and> c < W \<longrightarrow> writes_to E row c = 1))"

definition rows_post ::
  "'a matrix \<Rightarrow> int list \<Rightarrow> 'a \<Rightarrow> nat \<Rightarrow> nat \<Rightarrow> nat \<Rightarrow> 'a out_state \<Rightarrow> 'a out_state \<Rightarrow> bool" where
  "rows_post params oi pad W r0 R st st' \<longleftrightarrow>
     dim0 (out st') = dim0 (out st) \<and> dim1 (out st') = dim1 (out st)
   \<and> length (mdata (out st')) = length (mdata (out st))
   \<and> (\<forall>k < r0 * W. mdata (out st') ! k = mdata (out st) ! k)
   \<and> (\<forall>r c. r0 \<le> r \<and> r < R \<and> c < W \<longrightarrow> mdata (out st') ! (r * W + c) = cell_of params oi pad r c)
   \<and> (\<exists>E. trace st' = trace st @ E
          \<and> (\<forall>(r, c0, n) \<in> set E. r0 \<le> r \<and> r < R \<and> c0 + n \<le> W)
          \<and> (\<forall>r c. r0 \<le> r \<and> r < R \<and> c < W \<longrightarrow> writes_to E r c = 1))"

definition shapes_agree :: "'a matrix \<Rightarrow> int list \<Rightarrow> int \<Rightarrow> int \<Rightarrow> int \<Rightarrow> 'a matrix \<Rightarrow> bool" where
  "shapes_agree params indices out_num_cols params_rows params_cols output \<longleftrightarrow>
     length (mdata params) = dim0 params * dim1 params
   \<and> length (mdata output) = dim0 output * dim1 output
   \<and> params_rows = int (dim0 params) \<and> params_cols = int (dim1 params)
   \<and> length indices = dim1 params
   \<and> dim0 output = dim0 params \<and> int (dim1 output) = out_num_cols"

definition valid_indices :: "int list \<Rightarrow> int \<Rightarrow> bool" where
  "valid_indices indices out_num_cols \<longleftrightarrow>
     distinct indices \<and> (\<forall>x \<in> set indices. 0 \<le> x \<and> x < out_num_cols)"

definition inverse_map :: "int list \<Rightarrow> nat \<Rightarrow> int list \<Rightarrow> bool" where
  "inverse_map indices W oi \<longleftrightarrow>
     length oi = W
   \<and> (\<forall>j < length indices. oi ! nat (indices ! j) = int j)
   \<and> (\<forall>c < W. int c \<notin> set indices \<longrightarrow> oi ! c = - 1)"


text \<open>
  The example in the comments of the source (lines 43 to 48), with an output buffer that
  holds other values before the call.
\<close>

definition doc_params :: "int matrix" where
  "doc_params = \<lparr>dim0 = 1, dim1 = 4, mdata = [11, 12, 13, 14]\<rparr>"

definition doc_output :: "int matrix" where
  "doc_output = \<lparr>dim0 = 1, dim1 = 10, mdata = [91, 92, 93, 94, 95, 96, 97, 98, 99, 100]\<rparr>"



text \<open>
  The sizes for which no \<^verbatim>\<open>int\<close> counter overflows: the row and column counts are at
  most \<open>INT_MAX\<close>, and with exactly \<open>INT_MAX\<close> columns the last one is mapped (after a
  padding run that ends at the last column the loop of line 72 adds 1 to \<open>c = W\<close>).
\<close>

definition fits_int :: "int list \<Rightarrow> int \<Rightarrow> int \<Rightarrow> bool" where
  "fits_int indices out_num_cols params_rows \<longleftrightarrow>
     params_rows \<le> int INT_MAX \<and> out_num_cols \<le> int INT_MAX
   \<and> (out_num_cols = int INT_MAX \<longrightarrow> out_num_cols - 1 \<in> set indices)"

section \<open>Properties of the loops\<close>

lemma arrange_valid:
  assumes "length oi = nat W" and "distinct indices"
    and "\<forall>j. i \<le> j \<and> j < length indices \<longrightarrow> 0 \<le> indices ! j \<and> indices ! j < W"
  shows "\<exists>oi'. arrange_out_indices indices W i oi = Ret (Inr oi') \<and> length oi' = length oi
          \<and> (\<forall>j. i \<le> j \<and> j < length indices \<longrightarrow> oi' ! nat (indices ! j) = int j)
          \<and> (\<forall>c < length oi. (\<forall>j. i \<le> j \<and> j < length indices \<longrightarrow> indices ! j \<noteq> int c)
                 \<longrightarrow> oi' ! c = oi ! c)"
  using assms
proof (induction indices W i oi rule: arrange_out_indices.induct)
  case (1 indices W i oi)
  show ?case
  proof (cases "i < length indices")
    case False
    then show ?thesis by (simp add: arrange_out_indices.simps [of indices W i oi])
  next
    case True
    let ?x = "indices ! i"
    let ?oi1 = "oi[nat ?x := int i]"
    from True "1.prems"(3) have rng: "0 \<le> ?x" "?x < W" by auto
    then have fbc: "FastBoundsCheck ?x W" by (simp add: FastBoundsCheck_def)
    from rng "1.prems"(1) have inb: "nat ?x < length oi" by simp
    then have vs: "vec_set oi (nat ?x) (int i) = Ret ?oi1" by (simp add: vec_set_def)
    have len1: "length ?oi1 = nat W" using "1.prems"(1) by simp
    have rest: "\<forall>j. Suc i \<le> j \<and> j < length indices \<longrightarrow> 0 \<le> indices ! j \<and> indices ! j < W"
      using "1.prems"(3) by auto
    from "1.IH" [OF True _ vs len1 "1.prems"(2) rest] fbc
    obtain oi' where rec: "arrange_out_indices indices W (Suc i) ?oi1 = Ret (Inr oi')"
      and len': "length oi' = length ?oi1"
      and hit: "\<forall>j. Suc i \<le> j \<and> j < length indices \<longrightarrow> oi' ! nat (indices ! j) = int j"
      and miss: "\<forall>c < length ?oi1. (\<forall>j. Suc i \<le> j \<and> j < length indices \<longrightarrow> indices ! j \<noteq> int c)
                 \<longrightarrow> oi' ! c = ?oi1 ! c"
      by auto
    have unfold: "arrange_out_indices indices W i oi = Ret (Inr oi')"
      using True fbc vs rec by (simp add: arrange_out_indices.simps [of indices W i oi])
    have later: "indices ! j \<noteq> ?x" if "Suc i \<le> j" "j < length indices" for j
      using that True "1.prems"(2) by (auto simp: nth_eq_iff_index_eq)
    have at_i: "oi' ! nat ?x = int i"
    proof -
      have "\<forall>j. Suc i \<le> j \<and> j < length indices \<longrightarrow> indices ! j \<noteq> int (nat ?x)"
        using later rng by simp
      with miss inb have "oi' ! nat ?x = ?oi1 ! nat ?x" by simp
      with inb show ?thesis by simp
    qed
    have hit': "\<forall>j. i \<le> j \<and> j < length indices \<longrightarrow> oi' ! nat (indices ! j) = int j"
    proof (intro allI impI)
      fix j assume j: "i \<le> j \<and> j < length indices"
      show "oi' ! nat (indices ! j) = int j"
      proof (cases "j = i")
        case True
        with at_i show ?thesis by simp
      next
        case False
        with j hit show ?thesis by simp
      qed
    qed
    have miss': "\<forall>c < length oi. (\<forall>j. i \<le> j \<and> j < length indices \<longrightarrow> indices ! j \<noteq> int c)
                 \<longrightarrow> oi' ! c = oi ! c"
    proof (intro allI impI)
      fix c assume c: "c < length oi"
        and no: "\<forall>j. i \<le> j \<and> j < length indices \<longrightarrow> indices ! j \<noteq> int c"
      from no True have "?x \<noteq> int c" by simp
      then have ne: "nat ?x \<noteq> c" using rng by auto
      from no have "\<forall>j. Suc i \<le> j \<and> j < length indices \<longrightarrow> indices ! j \<noteq> int c" by simp
      with miss c have "oi' ! c = ?oi1 ! c" by simp
      with ne show "oi' ! c = oi ! c" by simp
    qed
    from unfold len' hit' miss' show ?thesis by simp
  qed
qed

lemma arrange_first_bad:
  assumes "length oi = nat W" and "i \<le> i0" and "i0 < length indices"
    and "\<not> (0 \<le> indices ! i0 \<and> indices ! i0 < W)"
    and "\<forall>j. i \<le> j \<and> j < i0 \<longrightarrow> 0 \<le> indices ! j \<and> indices ! j < W"
  shows "arrange_out_indices indices W i oi = Ret (Inl (range_status i0 (indices ! i0) W))"
  using assms
proof (induction indices W i oi rule: arrange_out_indices.induct)
  case (1 indices W i oi)
  from "1.prems" have lt: "i < length indices" by simp
  show ?case
  proof (cases "i = i0")
    case True
    with "1.prems"(4) have "\<not> FastBoundsCheck (indices ! i) W"
      by (simp add: FastBoundsCheck_def)
    with lt True show ?thesis by (simp add: arrange_out_indices.simps [of indices W i0 oi])
  next
    case False
    with "1.prems"(2) have lt0: "i < i0" by simp
    let ?x = "indices ! i"
    let ?oi1 = "oi[nat ?x := int i]"
    from lt0 "1.prems"(5) have rng: "0 \<le> ?x" "?x < W" by auto
    then have fbc: "FastBoundsCheck ?x W" by (simp add: FastBoundsCheck_def)
    from rng "1.prems"(1) have inb: "nat ?x < length oi" by simp
    then have vs: "vec_set oi (nat ?x) (int i) = Ret ?oi1" by (simp add: vec_set_def)
    have len1: "length ?oi1 = nat W" using "1.prems"(1) by simp
    have rest: "\<forall>j. Suc i \<le> j \<and> j < i0 \<longrightarrow> 0 \<le> indices ! j \<and> indices ! j < W"
      using "1.prems"(5) by auto
    from lt0 have le: "Suc i \<le> i0" by simp
    from "1.IH" [OF lt _ vs len1 le "1.prems"(3) "1.prems"(4) rest] fbc
    have "arrange_out_indices indices W (Suc i) ?oi1 = Ret (Inl (range_status i0 (indices ! i0) W))"
      by simp
    with lt fbc vs show ?thesis by (simp add: arrange_out_indices.simps [of indices W i oi])
  qed
qed

lemma int_add_Ret: "a + b \<le> INT_MAX \<Longrightarrow> int_add a b = Ret (a + b)"
  by (simp add: int_add_def)

lemma count_pad_run:
  assumes "length oi = W" and "c + p < W" and "W \<le> INT_MAX"
  shows "\<exists>q. count_pad oi W c p = Ret q \<and> p \<le> q \<and> c + q \<le> W
           \<and> (\<forall>j. p \<le> j \<and> j < q \<longrightarrow> oi ! (c + j) < 0)
           \<and> (oi ! (c + p) < 0 \<longrightarrow> p < q)
           \<and> (c + q < W \<longrightarrow> 0 \<le> oi ! (c + q))"
  using assms
proof (induction oi W c p rule: count_pad.induct)
  case (1 oi W c p)
  from "1.prems" have a0: "int_add c p = Ret (c + p)" by (intro int_add_Ret) simp
  from "1.prems" have vg: "vec_get oi (c + p) = Ret (oi ! (c + p))"
    by (simp add: vec_get_def)
  from "1.prems" have a1: "int_add p 1 = Ret (p + 1)" by (intro int_add_Ret) simp
  from "1.prems" have a2: "int_add c (p + 1) = Ret (c + (p + 1))" by (intro int_add_Ret) simp
  show ?case
  proof (cases "oi ! (c + p) < 0")
    case False
    with a0 vg have "count_pad oi W c p = Ret p" by (simp add: count_pad.simps [of oi W c p])
    with False "1.prems"(2) show ?thesis by auto
  next
    case neg: True
    show ?thesis
    proof (cases "W \<le> c + (p + 1)")
      case True
      with a0 vg neg a1 a2 have "count_pad oi W c p = Ret (p + 1)"
        by (simp add: count_pad.simps [of oi W c p])
      moreover have "\<forall>j. p \<le> j \<and> j < p + 1 \<longrightarrow> oi ! (c + j) < 0"
        using neg by (auto simp: le_less_Suc_eq)
      ultimately show ?thesis using True "1.prems"(2) by auto
    next
      case False
      then have lt: "c + (p + 1) < W" by simp
      from "1.IH" [OF a0 vg neg a1 a2 False "1.prems"(1) lt "1.prems"(3)]
      obtain q where q: "count_pad oi W c (p + 1) = Ret q" "p + 1 \<le> q" "c + q \<le> W"
        "\<forall>j. p + 1 \<le> j \<and> j < q \<longrightarrow> oi ! (c + j) < 0"
        "c + q < W \<longrightarrow> 0 \<le> oi ! (c + q)"
        by auto
      from a0 vg neg a1 a2 False q(1) have eq: "count_pad oi W c p = Ret q"
        by (simp add: count_pad.simps [of oi W c p])
      have "\<forall>j. p \<le> j \<and> j < q \<longrightarrow> oi ! (c + j) < 0"
      proof (intro allI impI)
        fix j assume j: "p \<le> j \<and> j < q"
        show "oi ! (c + j) < 0"
        proof (cases "j = p")
          case True
          with neg show ?thesis by simp
        next
          case False
          with j q(4) show ?thesis by simp
        qed
      qed
      with eq q show ?thesis by auto
    qed
  qed
qed

lemma fill_pad_run:
  assumes "c + p \<le> length cons" and "c + p \<le> INT_MAX"
  shows "\<exists>cons'. fill_pad cons c p = Ret (cons', c + p) \<and> length cons' = length cons
           \<and> (\<forall>j < p. cons' ! (c + j) = p - j)
           \<and> (\<forall>d. d < c \<or> c + p \<le> d \<longrightarrow> cons' ! d = cons ! d)"
  using assms
proof (induction p arbitrary: cons c)
  case 0
  then show ?case by simp
next
  case (Suc p)
  let ?cons1 = "cons[c := Suc p]"
  from Suc.prems have inb: "c < length cons" by simp
  then have vs: "vec_set cons c (Suc p) = Ret ?cons1" by (simp add: vec_set_def)
  from Suc.prems have ia: "int_add c 1 = Ret (Suc c)" by (simp add: int_add_def)
  from Suc.prems have "Suc c + p \<le> length ?cons1" "Suc c + p \<le> INT_MAX" by simp_all
  from Suc.IH [OF this]
  obtain cons' where r: "fill_pad ?cons1 (Suc c) p = Ret (cons', Suc c + p)"
    "length cons' = length ?cons1"
    "\<forall>j < p. cons' ! (Suc c + j) = p - j"
    "\<forall>d. d < Suc c \<or> Suc c + p \<le> d \<longrightarrow> cons' ! d = ?cons1 ! d"
    by auto
  from vs ia r(1) have eq: "fill_pad cons c (Suc p) = Ret (cons', c + Suc p)" by simp
  have a: "\<forall>j < Suc p. cons' ! (c + j) = Suc p - j"
  proof (intro allI impI)
    fix j assume j: "j < Suc p"
    show "cons' ! (c + j) = Suc p - j"
    proof (cases j)
      case 0
      from r(4) have "cons' ! c = ?cons1 ! c" by simp
      with inb 0 show ?thesis by simp
    next
      case (Suc k)
      with j r(3) have "cons' ! (Suc c + k) = p - k" by simp
      with Suc show ?thesis by simp
    qed
  qed
  have b: "\<forall>d. d < c \<or> c + Suc p \<le> d \<longrightarrow> cons' ! d = cons ! d"
  proof (intro allI impI)
    fix d assume d: "d < c \<or> c + Suc p \<le> d"
    then have "cons' ! d = ?cons1 ! d" using r(4) by auto
    moreover from d have "d \<noteq> c" by auto
    ultimately show "cons' ! d = cons ! d" by simp
  qed
  from eq r(2) a b show ?case by simp
qed

lemma group_pad_runs:
  assumes "length oi = W" and "length cons = W" and "runs_upto oi W cons mx c"
    and "W \<le> INT_MAX" and "W = INT_MAX \<longrightarrow> 0 \<le> oi ! (W - 1)"
  shows "\<exists>cons' mx'. group_pad oi W cons mx c = Ret (cons', mx') \<and> length cons' = W
           \<and> runs_upto oi W cons' mx' W"
  using assms
proof (induction oi W cons mx c rule: group_pad.induct)
  case (1 oi W cons mx c)
  show ?case
  proof (cases "c < W")
    case False
    then have "group_pad oi W cons mx c = Ret (cons, mx)"
      by (simp add: group_pad.simps [of oi W cons mx c])
    moreover from False "1.prems"(3) have "runs_upto oi W cons mx W"
      by (simp add: runs_upto_def)
    ultimately show ?thesis using "1.prems"(2) by simp
  next
    case True
    then have "c + 0 < W" by simp
    from count_pad_run [OF "1.prems"(1) this "1.prems"(4)]
    obtain p where p: "count_pad oi W c 0 = Ret p" "c + p \<le> W"
      "\<forall>j < p. oi ! (c + j) < 0" "oi ! c < 0 \<longrightarrow> 0 < p" "c + p < W \<longrightarrow> 0 \<le> oi ! (c + p)"
      by auto
    from p(2) "1.prems"(2,4) have "c + p \<le> length cons" "c + p \<le> INT_MAX" by simp_all
    from fill_pad_run [OF this]
    obtain cons1 where f: "fill_pad cons c p = Ret (cons1, c + p)" "length cons1 = length cons"
      "\<forall>j < p. cons1 ! (c + j) = p - j" "\<forall>d. d < c \<or> c + p \<le> d \<longrightarrow> cons1 ! d = cons ! d"
      by auto
    have below: "c + p < INT_MAX"
    proof (cases "W = INT_MAX")
      case False
      with p(2) "1.prems"(4) show ?thesis by simp
    next
      case max: True
      with "1.prems"(5) have last: "0 \<le> oi ! (W - 1)" by simp
      have "c + p \<noteq> W"
      proof
        assume e: "c + p = W"
        with True have "0 < p" by simp
        then have "p - 1 < p" by simp
        with p(3) have "oi ! (c + (p - 1)) < 0" by blast
        moreover from e \<open>0 < p\<close> have "c + (p - 1) = W - 1" by simp
        ultimately show False using last by simp
      qed
      with p(2) max show ?thesis by simp
    qed
    then have ia: "int_add (c + p) 1 = Ret (Suc (c + p))" by (simp add: int_add_def)
    let ?mx1 = "if p > mx then p else mx"
    have len1: "length cons1 = W" using f(2) "1.prems"(2) by simp
    have inv1: "runs_upto oi W cons1 ?mx1 (Suc (c + p))"
      unfolding runs_upto_def
    proof (intro allI impI)
      fix d assume d: "d < Suc (c + p) \<and> d < W \<and> oi ! d < 0"
      consider "d < c" | "c \<le> d" "d < c + p" | "d = c + p" using d by linarith
      then show "1 \<le> cons1 ! d \<and> d + cons1 ! d \<le> W \<and> cons1 ! d \<le> ?mx1
                  \<and> (\<forall>j < cons1 ! d. oi ! (d + j) < 0)"
      proof cases
        case 1
        with f(4) have "cons1 ! d = cons ! d" by simp
        moreover from "1.prems"(3) 1 d
        have "1 \<le> cons ! d \<and> d + cons ! d \<le> W \<and> cons ! d \<le> mx \<and> (\<forall>j < cons ! d. oi ! (d + j) < 0)"
          unfolding runs_upto_def by blast
        ultimately show ?thesis by auto
      next
        case 2
        define k where "k = d - c"
        from 2 have k: "k < p" "d = c + k" by (simp_all add: k_def)
        with f(3) have val: "cons1 ! d = p - k" by simp
        have "\<forall>j < p - k. oi ! (d + j) < 0"
        proof (intro allI impI)
          fix j assume "j < p - k"
          then have "k + j < p" by simp
          with p(3) have "oi ! (c + (k + j)) < 0" by blast
          then show "oi ! (d + j) < 0" using k(2) by (simp add: add.assoc)
        qed
        with val k p(2) show ?thesis by auto
      next
        case 3
        with d p(5) show ?thesis by auto
      qed
    qed
    from "1.IH" [OF True p(1) _ _ ia "1.prems"(1) len1 inv1 "1.prems"(4,5), of "(cons1, c + p)"] f(1)
    obtain cons' mx' where rec: "group_pad oi W cons1 ?mx1 (Suc (c + p)) = Ret (cons', mx')"
      "length cons' = W" "runs_upto oi W cons' mx' W"
      by auto
    from True p(1) f(1) ia rec(1) have "group_pad oi W cons mx c = Ret (cons', mx')"
      by (simp add: group_pad.simps [of oi W cons mx c])
    with rec show ?thesis by simp
  qed
qed

lemma writes_to_Nil: "writes_to [] r c = 0"
  by (simp add: writes_to_def)

lemma writes_to_Cons:
  "writes_to ((r', c', n) # tr) r c = (if r' = r \<and> c' \<le> c \<and> c < c' + n then 1 else 0) + writes_to tr r c"
  by (simp add: writes_to_def)

lemma writes_to_append: "writes_to (xs @ ys) r c = writes_to xs r c + writes_to ys r c"
  by (simp add: writes_to_def)

lemma writes_to_none:
  assumes "\<forall>(r', c', n) \<in> set tr. r' \<noteq> r \<or> c < c' \<or> c' + n \<le> c"
  shows "writes_to tr r c = 0"
proof -
  have "filter (\<lambda>(r', c', n). r' = r \<and> c' \<le> c \<and> c < c' + n) tr = []"
    using assms by (auto simp: filter_empty_conv)
  then show ?thesis by (simp add: writes_to_def)
qed

lemma memcpy_out_Ret:
  assumes "row * dim1 (out st) + col + n \<le> length (mdata (out st))" and "n \<le> length src"
  shows "\<exists>st1. memcpy_out st row col src n = Ret st1
           \<and> dim0 (out st1) = dim0 (out st) \<and> dim1 (out st1) = dim1 (out st)
           \<and> length (mdata (out st1)) = length (mdata (out st))
           \<and> trace st1 = trace st @ [(row, col, n)]
           \<and> (\<forall>k < length (mdata (out st)). mdata (out st1) ! k =
                 (if row * dim1 (out st) + col \<le> k \<and> k < row * dim1 (out st) + col + n
                  then src ! (k - (row * dim1 (out st) + col)) else mdata (out st) ! k))"
proof -
  define off where "off = row * dim1 (out st) + col"
  define d where "d = mdata (out st)"
  define d1 where "d1 = take off d @ take n src @ drop (off + n) d"
  define st1 where "st1 = st\<lparr>out := (out st)\<lparr>mdata := d1\<rparr>, trace := trace st @ [(row, col, n)]\<rparr>"
  from assms have le: "off + n \<le> length d" by (simp add: off_def d_def)
  with assms(2) have eq: "memcpy_out st row col src n = Ret st1"
    by (simp add: memcpy_out_def Let_def off_def d_def d1_def st1_def)
  have len: "length d1 = length d"
    using le assms(2) by (simp add: d1_def)
  have nth: "d1 ! k = (if off \<le> k \<and> k < off + n then src ! (k - off) else d ! k)"
    if "k < length d" for k
  proof -
    consider "k < off" | "off \<le> k" "k < off + n" | "off + n \<le> k" by linarith
    then show ?thesis
    proof cases
      case 1
      with le show ?thesis by (simp add: d1_def nth_append)
    next
      case 2
      then have "k - off < n" by simp
      with 2 le assms(2) show ?thesis by (simp add: d1_def nth_append)
    next
      case 3
      have l1: "length (take off d) = off" using le by simp
      have l2: "length (take n src) = n" using assms(2) by simp
      from 3 have a: "\<not> k < off" and b: "\<not> k - off < n" by simp_all
      have "d1 ! k = (take n src @ drop (off + n) d) ! (k - off)"
        unfolding d1_def using a l1 by (simp add: nth_append)
      also have "\<dots> = drop (off + n) d ! (k - off - n)"
        using b l2 by (simp add: nth_append)
      also have "\<dots> = d ! (off + n + (k - off - n))"
        using le by (simp add: nth_drop)
      also have "off + n + (k - off - n) = k" using 3 by simp
      finally show ?thesis using 3 by simp
    qed
  qed
  from eq len nth show ?thesis
    by (intro exI [of _ st1]) (simp add: st1_def off_def d_def)
qed

lemma copy_row_correct:
  assumes "dim1 (out st) = W" and "length oi = W" and "length cons = W"
    and "runs_upto oi W cons mx W"
    and "row * W + W \<le> length (mdata (out st))"
    and "\<forall>c < W. 0 \<le> oi ! c \<longrightarrow> row * dim1 params + nat (oi ! c) < length (mdata params)"
    and "col \<le> W" and "W \<le> INT_MAX"
  shows "\<exists>st'. copy_row params oi cons (replicate mx pad) W row col st = Some (Ret st')
           \<and> row_post params oi pad W row col st st'"
  using assms(1,5,7)
proof (induction "W - col" arbitrary: col st rule: less_induct)
  case less
  note d1 = less.prems(1) and room = less.prems(2)
  show ?case
  proof (cases "col < W")
    case False
    with less.prems(3) have "col = W" by simp
    have "copy_row params oi cons (replicate mx pad) W row col st = Some (Ret st)"
      using False by (subst copy_row.simps) simp
    moreover have "row_post params oi pad W row col st st"
      unfolding row_post_def using False by (auto intro: exI [of _ "[]"] simp: writes_to_Nil)
    ultimately show ?thesis by blast
  next
    case True
    have pf: "prefetch_next oi W col = Ret ()"
      using True assms(2,8) by (simp add: prefetch_next_def vec_get_def int_add_def)
    have ia1: "int_add col 1 = Ret (col + 1)"
      using True assms(8) by (simp add: int_add_def)
    have vg: "vec_get oi col = Ret (oi ! col)"
      using True assms(2) by (simp add: vec_get_def)
    let ?off = "row * W + col"
    show ?thesis
    proof (cases "0 \<le> oi ! col")
      case mapped: True
      let ?src = "addr params row (nat (oi ! col))"
      let ?k = "row * dim1 params + nat (oi ! col)"
      from assms(6) True mapped have kb: "?k < length (mdata params)" by simp
      then have srclen: "1 \<le> length ?src" by (simp add: addr_def)
      have src0: "?src ! 0 = mdata params ! ?k"
        using kb by (simp add: addr_def)
      from room True d1 have fits: "row * dim1 (out st) + col + 1 \<le> length (mdata (out st))"
        by simp
      from memcpy_out_Ret [OF fits srclen]
      obtain st1 where m: "memcpy_out st row col ?src 1 = Ret st1"
        "dim0 (out st1) = dim0 (out st)" "dim1 (out st1) = dim1 (out st)"
        "length (mdata (out st1)) = length (mdata (out st))"
        "trace st1 = trace st @ [(row, col, 1)]"
        "\<forall>k < length (mdata (out st)). mdata (out st1) ! k =
            (if row * dim1 (out st) + col \<le> k \<and> k < row * dim1 (out st) + col + 1
             then ?src ! (k - (row * dim1 (out st) + col)) else mdata (out st) ! k)"
        by blast
      have "W - (col + 1) < W - col" using True by simp
      from less.hyps [OF this, of st1] m(3) m(4) d1 room True
      obtain st' where rec: "copy_row params oi cons (replicate mx pad) W row (col + 1) st1 = Some (Ret st')"
        and post: "row_post params oi pad W row (col + 1) st1 st'"
        by auto
      have run: "copy_row params oi cons (replicate mx pad) W row col st = Some (Ret st')"
        using True pf vg mapped m(1) ia1 rec by (subst copy_row.simps) simp
      from post obtain E where E: "trace st' = trace st1 @ E"
        "\<forall>(r, c0, n) \<in> set E. r = row \<and> col + 1 \<le> c0 \<and> c0 + n \<le> W"
        "\<forall>c. col + 1 \<le> c \<and> c < W \<longrightarrow> writes_to E row c = 1"
        unfolding row_post_def by blast
      from post have shape: "dim0 (out st') = dim0 (out st1)" "dim1 (out st') = dim1 (out st1)"
        "length (mdata (out st')) = length (mdata (out st1))"
        and keep: "\<forall>k < length (mdata (out st1)). k < row * W + (col + 1) \<or> row * W + W \<le> k
          \<longrightarrow> mdata (out st') ! k = mdata (out st1) ! k"
        and cells: "\<forall>c. col + 1 \<le> c \<and> c < W \<longrightarrow> mdata (out st') ! (row * W + c) = cell_of params oi pad row c"
        unfolding row_post_def by blast+
      have offb: "?off < length (mdata (out st))" using room True by simp
      have keep': "\<forall>k < length (mdata (out st)). k < ?off \<or> row * W + W \<le> k
          \<longrightarrow> mdata (out st') ! k = mdata (out st) ! k"
      proof (intro allI impI)
        fix k assume k: "k < length (mdata (out st))" and out: "k < ?off \<or> row * W + W \<le> k"
        from k out keep m(4) have "mdata (out st') ! k = mdata (out st1) ! k" by auto
        also from k out m(6) d1 True have "\<dots> = mdata (out st) ! k" by auto
        finally show "mdata (out st') ! k = mdata (out st) ! k" .
      qed
      have here: "mdata (out st') ! ?off = cell_of params oi pad row col"
      proof -
        from keep offb m(4) have "mdata (out st') ! ?off = mdata (out st1) ! ?off" by simp
        also from m(6) offb d1 have "\<dots> = ?src ! 0" by simp
        finally show ?thesis using src0 mapped by (simp add: cell_of_def)
      qed
      have cells': "\<forall>c. col \<le> c \<and> c < W \<longrightarrow> mdata (out st') ! (row * W + c) = cell_of params oi pad row c"
      proof (intro allI impI)
        fix c assume c: "col \<le> c \<and> c < W"
        show "mdata (out st') ! (row * W + c) = cell_of params oi pad row c"
        proof (cases "c = col")
          case True
          with here show ?thesis by simp
        next
          case False
          with c cells show ?thesis by simp
        qed
      qed
      let ?E = "(row, col, 1) # E"
      have tr: "trace st' = trace st @ ?E" using E(1) m(5) by simp
      have Eb: "\<forall>(r, c0, n) \<in> set ?E. r = row \<and> col \<le> c0 \<and> c0 + n \<le> W"
        using E(2) True by auto
      have Ec: "\<forall>c. col \<le> c \<and> c < W \<longrightarrow> writes_to ?E row c = 1"
      proof (intro allI impI)
        fix c assume c: "col \<le> c \<and> c < W"
        show "writes_to ?E row c = 1"
        proof (cases "c = col")
          case True
          have "writes_to E row col = 0"
            using E(2) by (intro writes_to_none) auto
          with True show ?thesis by (simp add: writes_to_Cons)
        next
          case False
          with c E(3) show ?thesis by (simp add: writes_to_Cons)
        qed
      qed
      have "row_post params oi pad W row col st st'"
        unfolding row_post_def using shape m(2,3,4) keep' cells' tr Eb Ec by auto
      with run show ?thesis by blast
    next
      case padding: False
      then have neg: "oi ! col < 0" by simp
      let ?n = "cons ! col"
      from assms(4) True neg have n: "1 \<le> ?n" "col + ?n \<le> W" "?n \<le> mx"
        "\<forall>j < ?n. oi ! (col + j) < 0"
        unfolding runs_upto_def by blast+
      have vc: "vec_get cons col = Ret ?n"
        using True assms(3) by (simp add: vec_get_def)
      have ian: "int_add col ?n = Ret (col + ?n)"
        using n(2) assms(8) by (simp add: int_add_def)
      have srclen: "?n \<le> length (replicate mx pad)" using n(3) by simp
      from room n(2) d1 have fits: "row * dim1 (out st) + col + ?n \<le> length (mdata (out st))"
        by simp
      from memcpy_out_Ret [OF fits srclen]
      obtain st1 where m: "memcpy_out st row col (replicate mx pad) ?n = Ret st1"
        "dim0 (out st1) = dim0 (out st)" "dim1 (out st1) = dim1 (out st)"
        "length (mdata (out st1)) = length (mdata (out st))"
        "trace st1 = trace st @ [(row, col, ?n)]"
        "\<forall>k < length (mdata (out st)). mdata (out st1) ! k =
            (if row * dim1 (out st) + col \<le> k \<and> k < row * dim1 (out st) + col + ?n
             then replicate mx pad ! (k - (row * dim1 (out st) + col)) else mdata (out st) ! k)"
        by blast
      have "W - (col + ?n) < W - col" using True n(1) by simp
      from less.hyps [OF this, of st1] m(3) m(4) d1 room n(2)
      obtain st' where rec: "copy_row params oi cons (replicate mx pad) W row (col + ?n) st1 = Some (Ret st')"
        and post: "row_post params oi pad W row (col + ?n) st1 st'"
        by auto
      have run: "copy_row params oi cons (replicate mx pad) W row col st = Some (Ret st')"
        using True pf vg padding vc m(1) ian rec by (subst copy_row.simps) simp
      from post obtain E where E: "trace st' = trace st1 @ E"
        "\<forall>(r, c0, k) \<in> set E. r = row \<and> col + ?n \<le> c0 \<and> c0 + k \<le> W"
        "\<forall>c. col + ?n \<le> c \<and> c < W \<longrightarrow> writes_to E row c = 1"
        unfolding row_post_def by blast
      from post have shape: "dim0 (out st') = dim0 (out st1)" "dim1 (out st') = dim1 (out st1)"
        "length (mdata (out st')) = length (mdata (out st1))"
        and keep: "\<forall>k < length (mdata (out st1)). k < row * W + (col + ?n) \<or> row * W + W \<le> k
          \<longrightarrow> mdata (out st') ! k = mdata (out st1) ! k"
        and cells: "\<forall>c. col + ?n \<le> c \<and> c < W \<longrightarrow> mdata (out st') ! (row * W + c) = cell_of params oi pad row c"
        unfolding row_post_def by blast+
      have keep': "\<forall>k < length (mdata (out st)). k < ?off \<or> row * W + W \<le> k
          \<longrightarrow> mdata (out st') ! k = mdata (out st) ! k"
      proof (intro allI impI)
        fix k assume k: "k < length (mdata (out st))" and out: "k < ?off \<or> row * W + W \<le> k"
        from k out keep m(4) have "mdata (out st') ! k = mdata (out st1) ! k" by auto
        also from k out m(6) d1 n(2) have "\<dots> = mdata (out st) ! k" by auto
        finally show "mdata (out st') ! k = mdata (out st) ! k" .
      qed
      have inrun: "mdata (out st') ! (row * W + c) = cell_of params oi pad row c"
        if c: "col \<le> c" "c < col + ?n" for c
      proof -
        have cb: "row * W + c < length (mdata (out st))" using c n(2) room by simp
        from c have "c - col < ?n" by simp
        with n(4) have "oi ! (col + (c - col)) < 0" by blast
        with c have negc: "oi ! c < 0" by simp
        from keep cb m(4) c have "mdata (out st') ! (row * W + c) = mdata (out st1) ! (row * W + c)"
          by simp
        also from m(6) cb d1 c have "\<dots> = replicate mx pad ! (row * W + c - (row * W + col))"
          by simp
        also have "\<dots> = pad" using c n(3) by simp
        finally show ?thesis using negc by (simp add: cell_of_def)
      qed
      have cells': "\<forall>c. col \<le> c \<and> c < W \<longrightarrow> mdata (out st') ! (row * W + c) = cell_of params oi pad row c"
      proof (intro allI impI)
        fix c assume c: "col \<le> c \<and> c < W"
        show "mdata (out st') ! (row * W + c) = cell_of params oi pad row c"
        proof (cases "c < col + ?n")
          case True
          with c inrun show ?thesis by simp
        next
          case False
          with c cells show ?thesis by simp
        qed
      qed
      let ?E = "(row, col, ?n) # E"
      have tr: "trace st' = trace st @ ?E" using E(1) m(5) by simp
      have Eb: "\<forall>(r, c0, k) \<in> set ?E. r = row \<and> col \<le> c0 \<and> c0 + k \<le> W"
        using E(2) n(2) by auto
      have Ec: "\<forall>c. col \<le> c \<and> c < W \<longrightarrow> writes_to ?E row c = 1"
      proof (intro allI impI)
        fix c assume c: "col \<le> c \<and> c < W"
        show "writes_to ?E row c = 1"
        proof (cases "c < col + ?n")
          case True
          have "writes_to E row c = 0"
            using E(2) True by (intro writes_to_none) auto
          with True c show ?thesis by (simp add: writes_to_Cons)
        next
          case False
          with c E(3) show ?thesis by (simp add: writes_to_Cons)
        qed
      qed
      have "row_post params oi pad W row col st st'"
        unfolding row_post_def using shape m(2,3,4) keep' cells' tr Eb Ec by auto
      with run show ?thesis by blast
    qed
  qed
qed

lemma copy_rows_correct:
  assumes "length oi = W" and "length cons = W" and "runs_upto oi W cons mx W"
    and "\<forall>r < R. \<forall>c < W. 0 \<le> oi ! c \<longrightarrow> r * dim1 params + nat (oi ! c) < length (mdata params)"
    and "dim1 (out st) = W" and "length (mdata (out st)) = R * W" and "r0 \<le> R"
    and "W \<le> INT_MAX" and "R \<le> INT_MAX"
  shows "\<exists>st'. copy_rows params oi cons (replicate mx pad) W (int R) r0 st = Some (Ret st')
           \<and> rows_post params oi pad W r0 R st st'"
  using assms(5,6,7)
proof (induction "R - r0" arbitrary: r0 st rule: less_induct)
  case less
  note d1 = less.prems(1) and len = less.prems(2)
  show ?case
  proof (cases "r0 < R")
    case False
    then have "copy_rows params oi cons (replicate mx pad) W (int R) r0 st = Some (Ret st)"
      by (simp add: copy_rows.simps [of params oi cons "replicate mx pad" W "int R" r0 st])
    moreover have "rows_post params oi pad W r0 R st st"
      unfolding rows_post_def using False by (auto intro: exI [of _ "[]"])
    ultimately show ?thesis by blast
  next
    case True
    from True assms(9) have ia: "int_add r0 1 = Ret (Suc r0)" by (simp add: int_add_def)
    from True have "Suc r0 * W \<le> R * W" by (intro mult_le_mono1) simp
    then have room: "r0 * W + W \<le> length (mdata (out st))" using len by (simp add: add.commute)
    have reads: "\<forall>c < W. 0 \<le> oi ! c \<longrightarrow> r0 * dim1 params + nat (oi ! c) < length (mdata params)"
      using assms(4) True by simp
    from copy_row_correct [OF d1 assms(1,2,3) room reads _ assms(8), of 0 pad]
    obtain st1 where r1: "copy_row params oi cons (replicate mx pad) W r0 0 st = Some (Ret st1)"
      and p1: "row_post params oi pad W r0 0 st st1"
      by auto
    from p1 have shape1: "dim0 (out st1) = dim0 (out st)" "dim1 (out st1) = dim1 (out st)"
        "length (mdata (out st1)) = length (mdata (out st))"
      and keep1: "\<forall>k < length (mdata (out st)). k < r0 * W \<or> r0 * W + W \<le> k
          \<longrightarrow> mdata (out st1) ! k = mdata (out st) ! k"
      and cells1: "\<forall>c < W. mdata (out st1) ! (r0 * W + c) = cell_of params oi pad r0 c"
      unfolding row_post_def by auto
    from p1 obtain E1 where E1: "trace st1 = trace st @ E1"
        "\<forall>(r, c0, n) \<in> set E1. r = r0 \<and> c0 + n \<le> W"
        "\<forall>c < W. writes_to E1 r0 c = 1"
      unfolding row_post_def by auto
    have "R - Suc r0 < R - r0" using True by simp
    from less.hyps [OF this, of st1] shape1 d1 len True
    obtain st' where r2: "copy_rows params oi cons (replicate mx pad) W (int R) (Suc r0) st1 = Some (Ret st')"
      and p2: "rows_post params oi pad W (Suc r0) R st1 st'"
      by auto
    from p2 have shape2: "dim0 (out st') = dim0 (out st1)" "dim1 (out st') = dim1 (out st1)"
        "length (mdata (out st')) = length (mdata (out st1))"
      and keep2: "\<forall>k < Suc r0 * W. mdata (out st') ! k = mdata (out st1) ! k"
      and cells2: "\<forall>r c. Suc r0 \<le> r \<and> r < R \<and> c < W
          \<longrightarrow> mdata (out st') ! (r * W + c) = cell_of params oi pad r c"
      unfolding rows_post_def by blast+
    from p2 obtain E2 where E2: "trace st' = trace st1 @ E2"
        "\<forall>(r, c0, n) \<in> set E2. Suc r0 \<le> r \<and> r < R \<and> c0 + n \<le> W"
        "\<forall>r c. Suc r0 \<le> r \<and> r < R \<and> c < W \<longrightarrow> writes_to E2 r c = 1"
      unfolding rows_post_def by blast
    have run: "copy_rows params oi cons (replicate mx pad) W (int R) r0 st = Some (Ret st')"
      using True r1 ia r2
      by (simp add: copy_rows.simps [of params oi cons "replicate mx pad" W "int R" r0 st])
    have keep: "\<forall>k < r0 * W. mdata (out st') ! k = mdata (out st) ! k"
    proof (intro allI impI)
      fix k assume k: "k < r0 * W"
      then have "k < Suc r0 * W" by simp
      with keep2 have "mdata (out st') ! k = mdata (out st1) ! k" by blast
      also from k room keep1 have "\<dots> = mdata (out st) ! k" by simp
      finally show "mdata (out st') ! k = mdata (out st) ! k" .
    qed
    have cells: "\<forall>r c. r0 \<le> r \<and> r < R \<and> c < W
          \<longrightarrow> mdata (out st') ! (r * W + c) = cell_of params oi pad r c"
    proof (intro allI impI)
      fix r c assume rc: "r0 \<le> r \<and> r < R \<and> c < W"
      show "mdata (out st') ! (r * W + c) = cell_of params oi pad r c"
      proof (cases "r = r0")
        case True
        from rc have "r0 * W + c < Suc r0 * W" by simp
        with keep2 have "mdata (out st') ! (r0 * W + c) = mdata (out st1) ! (r0 * W + c)" by blast
        with cells1 rc True show ?thesis by simp
      next
        case False
        with rc cells2 show ?thesis by simp
      qed
    qed
    let ?E = "E1 @ E2"
    have tr: "trace st' = trace st @ ?E" using E1(1) E2(1) by simp
    have Eb: "\<forall>(r, c0, n) \<in> set ?E. r0 \<le> r \<and> r < R \<and> c0 + n \<le> W"
      using E1(2) E2(2) True by auto
    have Ec: "\<forall>r c. r0 \<le> r \<and> r < R \<and> c < W \<longrightarrow> writes_to ?E r c = 1"
    proof (intro allI impI)
      fix r c assume rc: "r0 \<le> r \<and> r < R \<and> c < W"
      show "writes_to ?E r c = 1"
      proof (cases "r = r0")
        case True
        have "writes_to E2 r0 c = 0"
          using E2(2) by (intro writes_to_none) auto
        with True rc E1(3) show ?thesis by (simp add: writes_to_append)
      next
        case False
        have "writes_to E1 r c = 0"
          using E1(2) False by (intro writes_to_none) auto
        with False rc E2(3) show ?thesis by (simp add: writes_to_append)
      qed
    qed
    have "rows_post params oi pad W r0 R st st'"
      unfolding rows_post_def using shape1 shape2 keep cells tr Eb Ec by auto
    with run show ?thesis by blast
  qed
qed

lemma arrange_inverse_map:
  assumes "valid_indices indices W"
  shows "\<exists>oi. arrange_out_indices indices W 0 (replicate (nat W) (- 1)) = Ret (Inr oi)
           \<and> inverse_map indices (nat W) oi"
proof -
  from assms have dist: "distinct indices"
    and rng: "\<forall>j. 0 \<le> j \<and> j < length indices \<longrightarrow> 0 \<le> indices ! j \<and> indices ! j < W"
    by (auto simp: valid_indices_def)
  have len0: "length (replicate (nat W) (- 1 :: int)) = nat W" by simp
  from arrange_valid [OF len0 dist rng]
  obtain oi where oi: "arrange_out_indices indices W 0 (replicate (nat W) (- 1)) = Ret (Inr oi)"
    "length oi = nat W"
    "\<forall>j < length indices. oi ! nat (indices ! j) = int j"
    "\<forall>c < nat W. (\<forall>j < length indices. indices ! j \<noteq> int c) \<longrightarrow> oi ! c = replicate (nat W) (- 1) ! c"
    by auto
  have "\<forall>c < nat W. int c \<notin> set indices \<longrightarrow> oi ! c = - 1"
  proof (intro allI impI)
    fix c assume c: "c < nat W" and "int c \<notin> set indices"
    then have "\<forall>j < length indices. indices ! j \<noteq> int c" by (auto simp: in_set_conv_nth)
    with oi(4) c show "oi ! c = - 1" by simp
  qed
  with oi show ?thesis unfolding inverse_map_def by blast
qed

lemma inverse_map_mapped:
  assumes "inverse_map indices W oi" and "c < W" and "0 \<le> oi ! c"
  shows "\<exists>j < length indices. indices ! j = int c \<and> oi ! c = int j"
proof -
  from assms have "int c \<in> set indices" unfolding inverse_map_def by force
  then obtain j where j: "j < length indices" "indices ! j = int c"
    by (auto simp: in_set_conv_nth)
  with assms(1) have "oi ! nat (int c) = int j" unfolding inverse_map_def by metis
  with j show ?thesis by auto
qed

lemma cell_of_mapped:
  assumes "inverse_map indices W oi" and "c < W" and "int c \<in> set indices"
  shows "0 \<le> oi ! c \<and> nat (oi ! c) < length indices \<and> indices ! nat (oi ! c) = int c"
proof -
  from assms(3) obtain j where j: "j < length indices" "indices ! j = int c"
    by (auto simp: in_set_conv_nth)
  with assms(1) have "oi ! nat (int c) = int j" unfolding inverse_map_def by metis
  with j show ?thesis by simp
qed

lemma INT_MAX_pos: "0 < INT_MAX"
  by (simp add: INT_MAX_def)

lemma fits_int_last:
  assumes "fits_int indices W rows" and "inverse_map indices (nat W) oi"
  shows "nat W \<le> INT_MAX \<and> (nat W = INT_MAX \<longrightarrow> 0 \<le> oi ! (nat W - 1))"
proof (intro conjI impI)
  from assms(1) show "nat W \<le> INT_MAX" by (auto simp: fits_int_def)
next
  assume m: "nat W = INT_MAX"
  with INT_MAX_pos have pos: "0 < W" by linarith
  with m have "W = int INT_MAX" by simp
  with assms(1) have "W - 1 \<in> set indices" by (simp add: fits_int_def)
  moreover from pos have "int (nat W - 1) = W - 1" by simp
  ultimately have "int (nat W - 1) \<in> set indices" by simp
  moreover from pos have "nat W - 1 < nat W" by simp
  ultimately show "0 \<le> oi ! (nat W - 1)"
    using cell_of_mapped [OF assms(2)] by blast
qed

lemma CountAndCopy_run:
  assumes "shapes_agree params indices W rows cols output" and "valid_indices indices W"
    and "fits_int indices W rows"
  shows "\<exists>oi st. arrange_out_indices indices W 0 (replicate (nat W) (- 1)) = Ret (Inr oi)
           \<and> inverse_map indices (nat W) oi
           \<and> CountAndCopy params indices W pad rows cols output = Some (Ret (OK, st))
           \<and> rows_post params oi pad (nat W) 0 (dim0 params) \<lparr>out = output, trace = []\<rparr> st"
proof -
  let ?W = "nat W"
  let ?R = "dim0 params"
  let ?st0 = "\<lparr>out = output, trace = []\<rparr>"
  from assms(1) have sh: "length (mdata params) = ?R * dim1 params"
    "length (mdata output) = ?R * ?W" "rows = int ?R" "length indices = dim1 params"
    "dim1 output = ?W" "0 \<le> W"
    by (auto simp: shapes_agree_def)
  from assms(2) have dist: "distinct indices" by (simp add: valid_indices_def)
  then have card: "card (set indices) = length indices" by (rule distinct_card)
  from arrange_inverse_map [OF assms(2)]
  obtain oi where oi: "arrange_out_indices indices W 0 (replicate ?W (- 1)) = Ret (Inr oi)"
    "inverse_map indices ?W oi"
    by blast
  then have leno: "length oi = ?W" by (simp add: inverse_map_def)
  from fits_int_last [OF assms(3) oi(2)]
  have wmax: "?W \<le> INT_MAX" and last: "?W = INT_MAX \<longrightarrow> 0 \<le> oi ! (?W - 1)" by simp_all
  from assms(3) sh(3) have rmax: "?R \<le> INT_MAX" by (simp add: fits_int_def)
  have "runs_upto oi ?W (replicate ?W 0) 0 0" by (simp add: runs_upto_def)
  from group_pad_runs [OF leno _ this wmax last]
  obtain cons mx where g: "group_pad oi ?W (replicate ?W 0) 0 0 = Ret (cons, mx)"
    "length cons = ?W" "runs_upto oi ?W cons mx ?W"
    by auto
  have reads: "\<forall>r < ?R. \<forall>c < ?W. 0 \<le> oi ! c \<longrightarrow> r * dim1 params + nat (oi ! c) < length (mdata params)"
  proof (intro allI impI)
    fix r c assume r: "r < ?R" and c: "c < ?W" and m: "0 \<le> oi ! c"
    from inverse_map_mapped [OF oi(2) c m] sh(4) have "nat (oi ! c) < dim1 params" by auto
    then have "r * dim1 params + nat (oi ! c) < Suc r * dim1 params" by simp
    also from r have "Suc r * dim1 params \<le> ?R * dim1 params"
      by (intro mult_le_mono1) simp
    finally show "r * dim1 params + nat (oi ! c) < length (mdata params)" using sh(1) by simp
  qed
  from copy_rows_correct [OF leno g(2) g(3) reads _ _ _ wmax rmax, of ?st0 0 pad] sh(2,5)
  obtain st where c: "copy_rows params oi cons (replicate mx pad) ?W (int ?R) 0 ?st0 = Some (Ret st)"
    "rows_post params oi pad ?W 0 ?R ?st0 st"
    by auto
  have "CountAndCopy params indices W pad rows cols output = Some (Ret (OK, st))"
    using card sh(3,6) oi(1) g(1) c(1) by (simp add: CountAndCopy_def)
  with oi c(2) show ?thesis by blast
qed



lemma CountAndCopy_duplicate:
  assumes "\<not> distinct indices"
  shows "CountAndCopy params indices W pad rows cols output
           = Some (Ret (duplicate_status (length indices) (card (set indices)),
                        \<lparr>out = output, trace = []\<rparr>))"
proof -
  from assms have "card (set indices) \<noteq> length indices"
    using card_distinct by blast
  then show ?thesis by (simp add: CountAndCopy_def)
qed

lemma CountAndCopy_out_of_range:
  assumes "distinct indices" and "0 \<le> W" and "i0 < length indices"
    and "\<not> (0 \<le> indices ! i0 \<and> indices ! i0 < W)"
    and "\<forall>j < i0. 0 \<le> indices ! j \<and> indices ! j < W"
  shows "CountAndCopy params indices W pad rows cols output
           = Some (Ret (range_status i0 (indices ! i0) W, \<lparr>out = output, trace = []\<rparr>))"
proof -
  from assms(1) have card: "card (set indices) = length indices" by (rule distinct_card)
  have len0: "length (replicate (nat W) (- 1 :: int)) = nat W" by simp
  from assms(5) have "\<forall>j. 0 \<le> j \<and> j < i0 \<longrightarrow> 0 \<le> indices ! j \<and> indices ! j < W" by simp
  from arrange_first_bad [OF len0 _ assms(3,4) this]
  have "arrange_out_indices indices W 0 (replicate (nat W) (- 1))
          = Ret (Inl (range_status i0 (indices ! i0) W))"
    by simp
  with card assms(2) show ?thesis by (simp add: CountAndCopy_def)
qed

lemma first_out_of_range:
  assumes "\<exists>x \<in> set indices. x < 0 \<or> W \<le> (x :: int)"
  shows "\<exists>i < length indices. (indices ! i < 0 \<or> W \<le> indices ! i)
           \<and> (\<forall>j < i. 0 \<le> indices ! j \<and> indices ! j < W)"
proof -
  let ?bad = "\<lambda>i. i < length indices \<and> (indices ! i < 0 \<or> W \<le> indices ! i)"
  from assms obtain x where x: "x \<in> set indices" "x < 0 \<or> W \<le> x" by blast
  from x(1) obtain k where "k < length indices" "indices ! k = x"
    by (auto simp: in_set_conv_nth)
  with x(2) have k: "?bad k" by simp
  define i where "i = (LEAST i. ?bad i)"
  from k have bad: "?bad i" unfolding i_def by (rule LeastI)
  have "\<forall>j < i. 0 \<le> indices ! j \<and> indices ! j < W"
  proof (intro allI impI)
    fix j assume j: "j < i"
    then have "\<not> ?bad j" unfolding i_def by (rule not_less_Least)
    moreover from j bad have "j < length indices" by simp
    ultimately show "0 \<le> indices ! j \<and> indices ! j < W" by auto
  qed
  with bad show ?thesis by blast
qed

lemma CountAndCopy_validated:
  assumes "valid_indices indices W"
    and "CountAndCopy params indices W pad rows cols output = Some (Ret (s, st))"
  shows "s = OK"
proof -
  from assms(1) have card: "card (set indices) = length indices"
    by (simp add: valid_indices_def distinct_card)
  from arrange_inverse_map [OF assms(1)]
  obtain oi where oi: "arrange_out_indices indices W 0 (replicate (nat W) (- 1)) = Ret (Inr oi)"
    by blast
  show ?thesis
  proof (cases "W < 0")
    case True
    with card assms(2) show ?thesis by (simp add: CountAndCopy_def)
  next
    case False
    with card oi assms(2) show ?thesis
      by (auto simp: CountAndCopy_def Let_def split: exec.splits option.splits prod.splits)
  qed
qed

lemma distinct_in_range_length:
  assumes "distinct indices" and "\<forall>x \<in> set indices. 0 \<le> x \<and> x < (W :: int)"
  shows "int (length indices) \<le> W \<or> indices = []"
proof -
  from assms(2) have "set indices \<subseteq> {0 ..< W}" by auto
  then have "card (set indices) \<le> card {0 ..< W}" by (intro card_mono) simp_all
  with assms(1) have "length indices \<le> nat W" by (simp add: distinct_card)
  then show ?thesis by (cases indices) auto
qed













lemma int_add_small: "a + b \<le> 20 \<Longrightarrow> int_add a b = Ret (a + b)"
  by (simp add: int_add_def INT_MAX_def)



section \<open>The claims\<close>




text \<open>
  Claim C2 (documented example). One row \<open>[11, 12, 13, 14]\<close>, ten output columns, pad
  value 0 and indices \<open>[7, 4, 2, 3]\<close>: the call succeeds and the output row is exactly
  \<open>[0, 0, 13, 14, 12, 0, 0, 11, 0, 0]\<close>, whatever the output buffer held before.
\<close>

theorem documented_example:
  "CountAndCopy \<lparr>dim0 = 1, dim1 = 4, mdata = [11, 12, 13, 14 :: int]\<rparr> [7, 4, 2, 3] 10 0 1 4
      \<lparr>dim0 = 1, dim1 = 10, mdata = [b0, b1, b2, b3, b4, b5, b6, b7, b8, b9]\<rparr>
   = Some (Ret (OK, \<lparr>out = \<lparr>dim0 = 1, dim1 = 10, mdata = [0, 0, 13, 14, 12, 0, 0, 11, 0, 0]\<rparr>,
                     trace = [(0, 0, 2), (0, 2, 1), (0, 3, 1), (0, 4, 1), (0, 5, 2), (0, 7, 1), (0, 8, 2)]\<rparr>))"
proof -
  have a: "arrange_out_indices [7, 4, 2, 3] 10 0 (replicate 10 (- 1))
             = Ret (Inr [- 1, - 1, 2, 3, 1, - 1, - 1, 0, - 1, - 1])"
    by code_simp
  have g: "group_pad [- 1, - 1, 2, 3, 1, - 1, - 1, 0, - 1, - 1] 10 (replicate 10 0) 0 0
             = Ret ([2, 1, 0, 0, 0, 2, 1, 0, 2, 1], 2)"
    by (simp add: group_pad.simps count_pad.simps int_add_small vec_get_def
          vec_set_def eval_nat_numeral)
  have card: "card (set [7, 4, 2, 3 :: int]) = 4" by simp
  show ?thesis
    by (simp add: CountAndCopy_def Let_def card a g
          copy_rows.simps copy_row.simps prefetch_next_def vec_get_def memcpy_out_def
          addr_def int_add_small numeral_2_eq_2)
qed

text \<open>
  Claim C3 (failure results). For a column count \<open>W\<close> that is not negative, the call
  returns an \<open>InvalidArgument\<close> status if and only if the indices hold a duplicate or a
  value outside the range from 0 up to, not including, \<open>W\<close>. With a duplicate the message
  carries the number of indices and the number of distinct indices. Without a duplicate,
  the message carries the first offending position, the value there and \<open>W\<close>. For
  indices \<open>[1, 1]\<close> the counts are 2 and 1; for \<open>W = 5\<close> and indices \<open>[7]\<close> the
  message cites position 0, value 7 and bound 5.
\<close>

theorem failure_iff_invalid:
  assumes "0 \<le> W"
  shows "((\<exists>msg st. CountAndCopy params indices W pad rows cols output
                      = Some (Ret (InvalidArgument msg, st)))
            \<longleftrightarrow> (\<not> distinct indices \<or> (\<exists>x \<in> set indices. x < 0 \<or> W \<le> x)))
       \<and> (\<not> distinct indices \<longrightarrow>
            CountAndCopy params indices W pad rows cols output
              = Some (Ret (InvalidArgument
                    [Text ''Indices cannot contain duplicates.'',
                     Text '' Total no. of indices: '', Num (int (length indices)),
                     Text '' != no. of unique indices: '', Num (int (card (set indices))),
                     Text ''.''],
                  \<lparr>out = output, trace = []\<rparr>)))
       \<and> (distinct indices \<and> (\<exists>x \<in> set indices. x < 0 \<or> W \<le> x) \<longrightarrow>
            (\<exists>i < length indices. (indices ! i < 0 \<or> W \<le> indices ! i)
               \<and> (\<forall>j < i. 0 \<le> indices ! j \<and> indices ! j < W)
               \<and> CountAndCopy params indices W pad rows cols output
                   = Some (Ret (InvalidArgument
                        [Text ''Indices('', Num (int i), Text ''): '', Num (indices ! i),
                         Text '' is not in range (0, '', Num W, Text ''].''],
                      \<lparr>out = output, trace = []\<rparr>))))
       \<and> CountAndCopy params [1, 1] W pad rows 2 output
            = Some (Ret (InvalidArgument
                  [Text ''Indices cannot contain duplicates.'',
                   Text '' Total no. of indices: '', Num 2,
                   Text '' != no. of unique indices: '', Num 1, Text ''.''],
                \<lparr>out = output, trace = []\<rparr>))
       \<and> CountAndCopy params [7] 5 pad rows 1 output
            = Some (Ret (InvalidArgument
                  [Text ''Indices('', Num 0, Text ''): '', Num 7,
                   Text '' is not in range (0, '', Num 5, Text ''].''],
                \<lparr>out = output, trace = []\<rparr>))"
proof -
  let ?run = "CountAndCopy params indices W pad rows cols output"
  let ?st0 = "\<lparr>out = output, trace = []\<rparr>"
  have dup: "?run = Some (Ret (InvalidArgument
                    [Text ''Indices cannot contain duplicates.'',
                     Text '' Total no. of indices: '', Num (int (length indices)),
                     Text '' != no. of unique indices: '', Num (int (card (set indices))),
                     Text ''.''], ?st0))"
    if "\<not> distinct indices"
    using CountAndCopy_duplicate [OF that, of params W pad rows cols "output"]
    by (simp only: duplicate_status_def)
  have rng: "\<exists>i < length indices. (indices ! i < 0 \<or> W \<le> indices ! i)
               \<and> (\<forall>j < i. 0 \<le> indices ! j \<and> indices ! j < W)
               \<and> ?run = Some (Ret (InvalidArgument
                        [Text ''Indices('', Num (int i), Text ''): '', Num (indices ! i),
                         Text '' is not in range (0, '', Num W, Text ''].''], ?st0))"
    if d: "distinct indices" and b: "\<exists>x \<in> set indices. x < 0 \<or> W \<le> x"
  proof -
    from first_out_of_range [OF b]
    obtain i where i: "i < length indices" "indices ! i < 0 \<or> W \<le> indices ! i"
      "\<forall>j < i. 0 \<le> indices ! j \<and> indices ! j < W"
      by blast
    from i(2) have "\<not> (0 \<le> indices ! i \<and> indices ! i < W)" by auto
    from CountAndCopy_out_of_range [OF d assms i(1) this i(3), of params pad rows cols "output"]
    have "?run = Some (Ret (InvalidArgument
                        [Text ''Indices('', Num (int i), Text ''): '', Num (indices ! i),
                         Text '' is not in range (0, '', Num W, Text ''].''], ?st0))"
      by (simp only: range_status_def)
    with i show ?thesis by blast
  qed
  have iff: "(\<exists>msg st. ?run = Some (Ret (InvalidArgument msg, st)))
            \<longleftrightarrow> (\<not> distinct indices \<or> (\<exists>x \<in> set indices. x < 0 \<or> W \<le> x))"
  proof
    assume "\<exists>msg st. ?run = Some (Ret (InvalidArgument msg, st))"
    then obtain msg st where f: "?run = Some (Ret (InvalidArgument msg, st))" by blast
    show "\<not> distinct indices \<or> (\<exists>x \<in> set indices. x < 0 \<or> W \<le> x)"
    proof (rule ccontr)
      assume "\<not> (\<not> distinct indices \<or> (\<exists>x \<in> set indices. x < 0 \<or> W \<le> x))"
      then have "valid_indices indices W" by (auto simp: valid_indices_def)
      from CountAndCopy_validated [OF this f] show False by simp
    qed
  next
    assume "\<not> distinct indices \<or> (\<exists>x \<in> set indices. x < 0 \<or> W \<le> x)"
    then consider "\<not> distinct indices" | "distinct indices" "\<exists>x \<in> set indices. x < 0 \<or> W \<le> x"
      by blast
    then show "\<exists>msg st. ?run = Some (Ret (InvalidArgument msg, st))"
    proof cases
      case 1
      from dup [OF 1] show ?thesis by blast
    next
      case 2
      from rng [OF 2] show ?thesis by blast
    qed
  qed
  have nd: "\<not> distinct [1, 1 :: int]" by simp
  have ex1: "CountAndCopy params [1, 1] W pad rows 2 output
            = Some (Ret (InvalidArgument
                  [Text ''Indices cannot contain duplicates.'',
                   Text '' Total no. of indices: '', Num 2,
                   Text '' != no. of unique indices: '', Num 1, Text ''.''], ?st0))"
    using CountAndCopy_duplicate [OF nd, of params W pad rows 2 "output"]
    by (simp add: duplicate_status_def)
  have ex2: "CountAndCopy params [7] 5 pad rows 1 output
            = Some (Ret (InvalidArgument
                  [Text ''Indices('', Num 0, Text ''): '', Num 7,
                   Text '' is not in range (0, '', Num 5, Text ''].''], ?st0))"
    using CountAndCopy_out_of_range [of "[7]" 5 0 params pad rows 1 "output"]
    by (simp add: range_status_def)
  show ?thesis
    using iff dup rng ex1 ex2 by (intro conjI impI) blast+
qed

theorem failure_iff_invalid_witness:
  "(0 :: int) \<le> 10
   \<and> \<not> (\<exists>msg st. CountAndCopy doc_params [7, 4, 2, 3] 10 0 1 4 doc_output
                      = Some (Ret (InvalidArgument msg, st)))
   \<and> CountAndCopy doc_params [7, 4, 2, 7] 10 0 1 4 doc_output
       = Some (Ret (InvalidArgument
             [Text ''Indices cannot contain duplicates.'',
              Text '' Total no. of indices: '', Num 4,
              Text '' != no. of unique indices: '', Num 3, Text ''.''],
           \<lparr>out = doc_output, trace = []\<rparr>))"
proof -
  have h: "(0 :: int) \<le> 10" by simp
  have d: "distinct [7, 4, 2, 3 :: int]" and r: "\<not> (\<exists>x \<in> set [7, 4, 2, 3 :: int]. x < 0 \<or> 10 \<le> x)"
    and nd: "\<not> distinct [7, 4, 2, 7 :: int]"
    by simp_all
  have c: "card (set [7, 4, 2, 7 :: int]) = 3"
    by code_simp
  from failure_iff_invalid [OF h, of doc_params "[7, 4, 2, 3]" 0 1 4 doc_output] d r
  have a: "\<not> (\<exists>msg st. CountAndCopy doc_params [7, 4, 2, 3] 10 0 1 4 doc_output
                      = Some (Ret (InvalidArgument msg, st)))"
    by blast
  from failure_iff_invalid [OF h, of doc_params "[7, 4, 2, 7]" 0 1 4 doc_output] nd c
  have b: "CountAndCopy doc_params [7, 4, 2, 7] 10 0 1 4 doc_output
       = Some (Ret (InvalidArgument
             [Text ''Indices cannot contain duplicates.'',
              Text '' Total no. of indices: '', Num 4,
              Text '' != no. of unique indices: '', Num 3, Text ''.''],
           \<lparr>out = doc_output, trace = []\<rparr>))"
    by simp
  from h a b show ?thesis by blast
qed

text \<open>
  Claim C4 (fail fast). Whenever the call returns a status other than \<open>OK\<close>, the output
  buffer is exactly the one the caller supplied and no write into it has happened.
\<close>

theorem fail_fast:
  assumes "CountAndCopy params indices W pad rows cols output = Some (Ret (s, st))" and "s \<noteq> OK"
  shows "st = \<lparr>out = output, trace = []\<rparr>"
proof (cases "card (set indices) \<noteq> length indices")
  case True
  with assms(1) show ?thesis by (simp add: CountAndCopy_def)
next
  case nodup: False
  show ?thesis
  proof (cases "W < 0")
    case True
    with nodup assms(1) show ?thesis by (simp add: CountAndCopy_def)
  next
    case False
    show ?thesis
    proof (cases "arrange_out_indices indices W 0 (replicate (nat W) (- 1))")
      case Fault
      with nodup False assms(1) show ?thesis by (simp add: CountAndCopy_def)
    next
      case (Ret res)
      show ?thesis
      proof (cases res)
        case (Inl err)
        with Ret nodup False assms(1) show ?thesis by (simp add: CountAndCopy_def)
      next
        case (Inr oi)
        with Ret nodup False assms(1) have "s = OK"
          by (auto simp: CountAndCopy_def Let_def split: exec.splits option.splits prod.splits)
        with assms(2) show ?thesis by simp
      qed
    qed
  qed
qed

theorem fail_fast_witness:
  "CountAndCopy doc_params [1, 1] 10 0 1 2 doc_output
     = Some (Ret (duplicate_status 2 1, \<lparr>out = doc_output, trace = []\<rparr>))
   \<and> duplicate_status 2 1 \<noteq> OK
   \<and> \<lparr>out = doc_output, trace = []\<rparr> = \<lparr>out = doc_output, trace = []\<rparr>"
proof -
  have h1: "CountAndCopy doc_params [1, 1] 10 0 1 2 doc_output
     = Some (Ret (duplicate_status 2 1, \<lparr>out = doc_output, trace = []\<rparr>))"
    by (simp add: CountAndCopy_def duplicate_status_def)
  have h2: "duplicate_status 2 1 \<noteq> OK"
    by (simp add: duplicate_status_def)
  from fail_fast [OF h1 h2] h1 h2 show ?thesis by simp
qed

text \<open>
  Claim C5 (accepted range). The range check accepts the values from 0 up to, not
  including, \<open>W\<close>. A call whose valid indices include 0 is not rejected, and succeeds on
  buffers of agreeing shapes when the sizes fit the \<^verbatim>\<open>int\<close> counters. A call with distinct indices that include \<open>W\<close>, for
  \<open>W\<close> not negative, returns the out-of-range status for its first offending position;
  when all other indices are in range that position holds \<open>W\<close>, and the message cites
  \<open>W\<close> as the value and as the bound. The text of the message still says
  \<open>(0, out_num_cols]\<close>. (With a duplicate among the indices the duplicate check, which
  comes first, answers instead.)
\<close>

theorem zero_accepted_width_rejected:
  "(valid_indices indices W \<and> 0 \<in> set indices \<longrightarrow>
       (\<forall>msg st. CountAndCopy params indices W pad rows cols output
                   \<noteq> Some (Ret (InvalidArgument msg, st)))
     \<and> (shapes_agree params indices W rows cols output \<and> fits_int indices W rows \<longrightarrow>
          (\<exists>st. CountAndCopy params indices W pad rows cols output = Some (Ret (OK, st)))))
 \<and> (0 \<le> W \<and> distinct indices \<and> W \<in> set indices \<longrightarrow>
       (\<exists>i < length indices. (indices ! i < 0 \<or> W \<le> indices ! i)
          \<and> CountAndCopy params indices W pad rows cols output
               = Some (Ret (InvalidArgument
                     [Text ''Indices('', Num (int i), Text ''): '', Num (indices ! i),
                      Text '' is not in range (0, '', Num W, Text ''].''],
                   \<lparr>out = output, trace = []\<rparr>))))
 \<and> (0 \<le> W \<and> distinct indices \<and> W \<in> set indices
       \<and> (\<forall>x \<in> set indices. x \<noteq> W \<longrightarrow> 0 \<le> x \<and> x < W) \<longrightarrow>
       (\<exists>i < length indices. indices ! i = W
          \<and> CountAndCopy params indices W pad rows cols output
               = Some (Ret (InvalidArgument
                     [Text ''Indices('', Num (int i), Text ''): '', Num W,
                      Text '' is not in range (0, '', Num W, Text ''].''],
                   \<lparr>out = output, trace = []\<rparr>))))"
proof -
  let ?run = "CountAndCopy params indices W pad rows cols output"
  let ?st0 = "\<lparr>out = output, trace = []\<rparr>"
  have a1: "\<forall>msg st. ?run \<noteq> Some (Ret (InvalidArgument msg, st))"
    if v: "valid_indices indices W"
  proof (intro allI notI)
    fix msg st assume "?run = Some (Ret (InvalidArgument msg, st))"
    from CountAndCopy_validated [OF v this] show False by simp
  qed
  have a2: "\<exists>st. ?run = Some (Ret (OK, st))"
    if v: "valid_indices indices W" and s: "shapes_agree params indices W rows cols output"
      and f: "fits_int indices W rows"
    using CountAndCopy_run [OF s v f, of pad] by blast
  have b: "\<exists>i < length indices. (indices ! i < 0 \<or> W \<le> indices ! i)
          \<and> (\<forall>j < i. 0 \<le> indices ! j \<and> indices ! j < W)
          \<and> ?run = Some (Ret (InvalidArgument
                     [Text ''Indices('', Num (int i), Text ''): '', Num (indices ! i),
                      Text '' is not in range (0, '', Num W, Text ''].''], ?st0))"
    if w: "0 \<le> W" and d: "distinct indices" and m: "W \<in> set indices"
  proof -
    from m have "\<exists>x \<in> set indices. x < 0 \<or> W \<le> x" by auto
    from first_out_of_range [OF this]
    obtain i where i: "i < length indices" "indices ! i < 0 \<or> W \<le> indices ! i"
      "\<forall>j < i. 0 \<le> indices ! j \<and> indices ! j < W"
      by blast
    from i(2) have "\<not> (0 \<le> indices ! i \<and> indices ! i < W)" by auto
    from CountAndCopy_out_of_range [OF d w i(1) this i(3), of params pad rows cols "output"]
    have "?run = Some (Ret (InvalidArgument
                     [Text ''Indices('', Num (int i), Text ''): '', Num (indices ! i),
                      Text '' is not in range (0, '', Num W, Text ''].''], ?st0))"
      by (simp only: range_status_def)
    with i show ?thesis by blast
  qed
  have c: "\<exists>i < length indices. indices ! i = W
          \<and> ?run = Some (Ret (InvalidArgument
                     [Text ''Indices('', Num (int i), Text ''): '', Num W,
                      Text '' is not in range (0, '', Num W, Text ''].''], ?st0))"
    if w: "0 \<le> W" and d: "distinct indices" and m: "W \<in> set indices"
      and o: "\<forall>x \<in> set indices. x \<noteq> W \<longrightarrow> 0 \<le> x \<and> x < W"
  proof -
    from b [OF w d m]
    obtain i where i: "i < length indices" "indices ! i < 0 \<or> W \<le> indices ! i"
      "?run = Some (Ret (InvalidArgument
                     [Text ''Indices('', Num (int i), Text ''): '', Num (indices ! i),
                      Text '' is not in range (0, '', Num W, Text ''].''], ?st0))"
      by blast
    from i(1) have "indices ! i \<in> set indices" by simp
    with o i(2) have "indices ! i = W" by force
    with i show ?thesis by auto
  qed
  show ?thesis
    using a1 a2 b c by (intro conjI impI) blast+
qed

theorem zero_accepted_width_rejected_witness:
  "valid_indices [7, 0, 2, 3] 10 \<and> 0 \<in> set [7, 0, 2, 3 :: int]
   \<and> shapes_agree doc_params [7, 0, 2, 3] 10 1 4 doc_output
   \<and> fits_int [7, 0, 2, 3] 10 1
   \<and> (\<exists>st. CountAndCopy doc_params [7, 0, 2, 3] 10 0 1 4 doc_output = Some (Ret (OK, st)))
   \<and> (0 :: int) \<le> 10 \<and> distinct [7, 10, 2, 3 :: int] \<and> 10 \<in> set [7, 10, 2, 3 :: int]
   \<and> (\<exists>i < length [7, 10, 2, 3 :: int]. [7, 10, 2, 3 :: int] ! i = 10
          \<and> CountAndCopy doc_params [7, 10, 2, 3] 10 0 1 4 doc_output
               = Some (Ret (InvalidArgument
                     [Text ''Indices('', Num (int i), Text ''): '', Num 10,
                      Text '' is not in range (0, '', Num 10, Text ''].''],
                   \<lparr>out = doc_output, trace = []\<rparr>)))"
proof -
  have h1: "valid_indices [7, 0, 2, 3] 10" by (simp add: valid_indices_def)
  have h2: "0 \<in> set [7, 0, 2, 3 :: int]" by simp
  have h3: "shapes_agree doc_params [7, 0, 2, 3] 10 1 4 doc_output"
    by (simp add: shapes_agree_def doc_params_def doc_output_def)
  have h8: "fits_int [7, 0, 2, 3] 10 1"
    by (simp add: fits_int_def INT_MAX_def)
  have h4: "(0 :: int) \<le> 10" by simp
  have h5: "distinct [7, 10, 2, 3 :: int]" by simp
  have h6: "10 \<in> set [7, 10, 2, 3 :: int]" by simp
  have h7: "\<forall>x \<in> set [7, 10, 2, 3 :: int]. x \<noteq> 10 \<longrightarrow> 0 \<le> x \<and> x < 10" by simp
  from zero_accepted_width_rejected [of "[7, 0, 2, 3]" 10 doc_params 0 1 4 doc_output] h1 h2 h3 h8
  have a: "\<exists>st. CountAndCopy doc_params [7, 0, 2, 3] 10 0 1 4 doc_output = Some (Ret (OK, st))"
    by blast
  from zero_accepted_width_rejected [of "[7, 10, 2, 3]" 10 doc_params 0 1 4 doc_output]
    h4 h5 h6 h7
  have b: "\<exists>i < length [7, 10, 2, 3 :: int]. [7, 10, 2, 3 :: int] ! i = 10
          \<and> CountAndCopy doc_params [7, 10, 2, 3] 10 0 1 4 doc_output
               = Some (Ret (InvalidArgument
                     [Text ''Indices('', Num (int i), Text ''): '', Num 10,
                      Text '' is not in range (0, '', Num 10, Text ''].''],
                   \<lparr>out = doc_output, trace = []\<rparr>))"
    by blast
  from h1 h2 h3 h8 a h4 h5 h6 b show ?thesis by blast
qed










text \<open>
  Claim C9 (more source columns than output columns). The function has no check that
  \<open>W\<close> is at least \<open>C\<close>. Still, for \<open>W\<close> not negative, every call with \<open>C\<close> indices
  and \<open>C > W\<close> is rejected before any write to the output, with the duplicate status or
  with the out-of-range status: \<open>C\<close> values cannot be pairwise distinct and all in a
  range of \<open>W\<close> values.
\<close>

theorem too_many_columns_rejected:
  assumes "0 \<le> W" and "int (length indices) = cols" and "W < cols"
  shows "\<exists>s. CountAndCopy params indices W pad rows cols output
                = Some (Ret (s, \<lparr>out = output, trace = []\<rparr>))
            \<and> (s = duplicate_status (length indices) (card (set indices))
                \<or> (\<exists>i < length indices. (indices ! i < 0 \<or> W \<le> indices ! i)
                       \<and> s = range_status i (indices ! i) W))
            \<and> s \<noteq> OK"
proof (cases "distinct indices")
  case False
  from CountAndCopy_duplicate [OF False, of params W pad rows cols "output"]
  show ?thesis by (auto simp: duplicate_status_def)
next
  case True
  have "\<exists>x \<in> set indices. x < 0 \<or> W \<le> x"
  proof (rule ccontr)
    assume "\<not> (\<exists>x \<in> set indices. x < 0 \<or> W \<le> x)"
    then have "\<forall>x \<in> set indices. 0 \<le> x \<and> x < W" by auto
    from distinct_in_range_length [OF True this] assms show False by auto
  qed
  from first_out_of_range [OF this]
  obtain i where i: "i < length indices" "indices ! i < 0 \<or> W \<le> indices ! i"
    "\<forall>j < i. 0 \<le> indices ! j \<and> indices ! j < W"
    by blast
  from i(2) have "\<not> (0 \<le> indices ! i \<and> indices ! i < W)" by auto
  from CountAndCopy_out_of_range [OF True assms(1) i(1) this i(3), of params pad rows cols "output"]
    i(1,2)
  show ?thesis by (auto simp: range_status_def)
qed

theorem too_many_columns_rejected_witness:
  "(0 :: int) \<le> 3 \<and> int (length [2, 0, 1, 3 :: int]) = 4 \<and> (3 :: int) < 4
   \<and> (\<exists>s. CountAndCopy doc_params [2, 0, 1, 3] 3 0 1 4 doc_output
                = Some (Ret (s, \<lparr>out = doc_output, trace = []\<rparr>))
            \<and> s \<noteq> OK)"
proof -
  have h1: "(0 :: int) \<le> 3" and h2: "int (length [2, 0, 1, 3 :: int]) = 4" and h3: "(3 :: int) < 4"
    by simp_all
  from too_many_columns_rejected [OF h1 h2 h3, of doc_params 0 1 doc_output]
  have "\<exists>s. CountAndCopy doc_params [2, 0, 1, 3] 3 0 1 4 doc_output
                = Some (Ret (s, \<lparr>out = doc_output, trace = []\<rparr>)) \<and> s \<noteq> OK"
    by blast
  with h1 h2 h3 show ?thesis by blast
qed




end
